theory Spec2Isabelle
  imports Complex_Main "HOL-Library.Word"
begin

unbundle bit_operations_syntax

section \<open>Data model\<close>

text \<open>
  The host-side reference bitset of the test suite (\<^verbatim>\<open>cpp/test/core/bitset.cu\<close>).
  A bitset is a \<^verbatim>\<open>std::vector<bitset_t>\<close>, with \<^verbatim>\<open>bitset_t\<close> one of
  \<^verbatim>\<open>uint8_t\<close>, \<^verbatim>\<open>uint16_t\<close>, \<^verbatim>\<open>uint32_t\<close>, \<^verbatim>\<open>uint64_t\<close>: a list of
  \<open>'a word\<close>, where \<open>LENGTH('a)\<close> is \<^verbatim>\<open>sizeof(bitset_t) * 8\<close>. The bitwise operators
  of the source are the word operations (\<open>AND\<close>, \<open>OR\<close>, \<open>NOT\<close>, \<open>push_bit\<close> for
  \<^verbatim>\<open><<\<close>, \<open>drop_bit\<close> for \<^verbatim>\<open>>>\<close>); the result of an operator on a promoted
  \<^verbatim>\<open>uint8_t\<close> or \<^verbatim>\<open>uint16_t\<close> is truncated on assignment, which is what the word
  operations compute.

  Indices and sizes (\<^verbatim>\<open>index_t\<close>, \<^verbatim>\<open>size_t\<close>) are natural numbers. The functions
  only divide them by a width, take them modulo a width, count them up to a number of
  bits, or multiply a bit count by a repetition count; the largest value computed is the
  number of bits of the destination plus one word width. The wrap-around of \<^verbatim>\<open>size_t\<close>
  at \<open>2^64\<close> is therefore not modelled: it needs a buffer of about \<open>2^64\<close> bits.

  \<^verbatim>\<open>std::vector::operator[]\<close> is unchecked; an access outside the vector is recorded
  as the fault \<open>OutOfBounds\<close>, a division by a zero width as \<open>DivisionByZero\<close>, and
  the quotient \<^verbatim>\<open>0.0 / 0.0\<close> of \<^verbatim>\<open>sparsity_cpu_bitset\<close> as \<open>NotANumber\<close>.
\<close>

datatype fault = OutOfBounds | DivisionByZero | NotANumber

type_synonym u8 = "8 word"

text \<open>
  Modelled from the spec: \<^verbatim>\<open>raft::ceildiv(a, b)\<close> of \<^verbatim>\<open>raft/util\<close>, which the
  fixture only calls to size its vectors. The specification sizes the backing array as
  \<open>ceil(N / bits_per_word)\<close>; in integers that is \<^verbatim>\<open>(a + b - 1) / b\<close>, as the source
  itself writes it at the head of \<^verbatim>\<open>repeat_cpu_bitset\<close>.
\<close>

definition ceildiv :: "nat \<Rightarrow> nat \<Rightarrow> nat" where
  "ceildiv a b = (a + b - 1) div b"

section \<open>Construction and membership test\<close>

text \<open>
  \<^verbatim>\<open>
  for (size_t i = 0; i < mask_idx.size(); i++) {
    auto idx = mask_idx[i];
    bitset[idx / bitset_element_size] &= ~(bitset_t{1} << (idx % bitset_element_size));
  }
  \<close>
\<close>

fun add_cpu_bitset :: "'a::len word list \<Rightarrow> nat list \<Rightarrow> fault + 'a word list" where
  "add_cpu_bitset bitset [] = Inr bitset"
| "add_cpu_bitset bitset (idx # mask_idx) =
     (if idx div LENGTH('a) < length bitset
      then add_cpu_bitset
             (bitset[idx div LENGTH('a) :=
                (bitset ! (idx div LENGTH('a))) AND NOT (push_bit (idx mod LENGTH('a)) 1)])
             mask_idx
      else Inl OutOfBounds)"

text \<open>
  \<^verbatim>\<open>
  for (size_t i = 0; i < bitset.size(); i++) { bitset[i] = ~bitset_t(0x00); }
  add_cpu_bitset(bitset, mask_idx);
  \<close>
\<close>

definition create_cpu_bitset :: "'a::len word list \<Rightarrow> nat list \<Rightarrow> fault + 'a word list" where
  "create_cpu_bitset bitset mask_idx = add_cpu_bitset (map (\<lambda>_. NOT 0) bitset) mask_idx"

text \<open>
  The fixture allocates \<^verbatim>\<open>bitset_ref(raft::ceildiv(spec.bitset_len, bitset_element_size))\<close>
  (value-initialised words) and fills it with \<^verbatim>\<open>create_cpu_bitset(bitset_ref, mask_cpu)\<close>.
\<close>

definition bitset_ref :: "nat \<Rightarrow> nat list \<Rightarrow> fault + 'a::len word list" where
  "bitset_ref bitset_len mask_cpu =
     create_cpu_bitset (replicate (ceildiv bitset_len LENGTH('a)) 0) mask_cpu"

text \<open>
  One iteration of the loop of \<^verbatim>\<open>test_cpu_bitset\<close>:
  \<^verbatim>\<open>
  result[i] = uint8_t((bitset[queries[i] / bitset_element_size] &
                       (bitset_t{1} << (queries[i] % bitset_element_size))) != 0);
  \<close>
  and the loop over \<open>i\<close>, here over the remaining queries with the counter \<open>i\<close>.
\<close>

fun test_cpu_bitset_from ::
  "'a::len word list \<Rightarrow> nat list \<Rightarrow> nat \<Rightarrow> u8 list \<Rightarrow> fault + u8 list" where
  "test_cpu_bitset_from bitset [] i result = Inr result"
| "test_cpu_bitset_from bitset (q # queries) i result =
     (if q div LENGTH('a) < length bitset \<and> i < length result
      then test_cpu_bitset_from bitset queries (Suc i)
             (result[i := of_bool ((bitset ! (q div LENGTH('a))) AND
                                     push_bit (q mod LENGTH('a)) 1 \<noteq> 0)])
      else Inl OutOfBounds)"

definition test_cpu_bitset :: "'a::len word list \<Rightarrow> nat list \<Rightarrow> u8 list \<Rightarrow> fault + u8 list" where
  "test_cpu_bitset bitset queries result = test_cpu_bitset_from bitset queries 0 result"

section \<open>Flip\<close>

text \<open>\<^verbatim>\<open>for (size_t i = 0; i < bitset.size(); i++) { bitset[i] = ~bitset[i]; }\<close>\<close>

definition flip_cpu_bitset :: "'a::len word list \<Rightarrow> 'a word list" where
  "flip_cpu_bitset bitset = map (\<lambda>w. NOT w) bitset"

section \<open>Repeat\<close>

text \<open>
  The double loop of \<^verbatim>\<open>repeat_cpu_bitset\<close>. The inner loop, from bit \<open>i\<close> of the
  input on, with the running \<^verbatim>\<open>output_bit_index\<close>:
  \<^verbatim>\<open>
  for (size_t i = 0; i < input_bits; ++i) {
    size_t input_unit_index = i / (sizeof(bitset_t) * 8);
    size_t input_bit_offset = i % (sizeof(bitset_t) * 8);
    bool bit                = (input[input_unit_index] >> input_bit_offset) & 1;
    size_t output_unit_index = output_bit_index / (sizeof(bitset_t) * 8);
    size_t output_bit_offset = output_bit_index % (sizeof(bitset_t) * 8);
    output[output_unit_index] |= (static_cast<bitset_t>(bit) << output_bit_offset);
    ++output_bit_index;
  }
  \<close>
\<close>

function repeat_bits ::
  "'a::len word list \<Rightarrow> nat \<Rightarrow> nat \<Rightarrow> 'a word list \<Rightarrow> nat \<Rightarrow> fault + ('a word list \<times> nat)" where
  "repeat_bits input input_bits i output output_bit_index =
     (if i < input_bits
      then (if i div LENGTH('a) < length input \<and> output_bit_index div LENGTH('a) < length output
            then repeat_bits input input_bits (i + 1)
                   (output[output_bit_index div LENGTH('a) :=
                      (output ! (output_bit_index div LENGTH('a))) OR
                        push_bit (output_bit_index mod LENGTH('a))
                          (of_bool (drop_bit (i mod LENGTH('a)) (input ! (i div LENGTH('a))) AND 1 \<noteq> 0))])
                   (output_bit_index + 1)
            else Inl OutOfBounds)
      else Inr (output, output_bit_index))"
  by pat_completeness auto
termination
  by (relation "measure (\<lambda>(input, input_bits, i, output, output_bit_index). input_bits - i)") auto

declare repeat_bits.simps [simp del]

text \<open>The outer loop \<^verbatim>\<open>for (size_t r = 0; r < repeat; ++r)\<close>.\<close>

function repeat_rounds ::
  "'a::len word list \<Rightarrow> nat \<Rightarrow> nat \<Rightarrow> nat \<Rightarrow> 'a word list \<Rightarrow> nat \<Rightarrow> fault + ('a word list \<times> nat)" where
  "repeat_rounds input input_bits repeat r output output_bit_index =
     (if r < repeat
      then (case repeat_bits input input_bits 0 output output_bit_index of
              Inl e \<Rightarrow> Inl e
            | Inr (output', output_bit_index') \<Rightarrow>
                repeat_rounds input input_bits repeat (r + 1) output' output_bit_index')
      else Inr (output, output_bit_index))"
  by pat_completeness auto
termination
  by (relation "measure (\<lambda>(input, input_bits, repeat, r, output, output_bit_index). repeat - r)") auto

declare repeat_rounds.simps [simp del]

text \<open>
  \<^verbatim>\<open>
  const size_t output_bits  = input_bits * repeat;
  const size_t output_units = (output_bits + sizeof(bitset_t) * 8 - 1) / (sizeof(bitset_t) * 8);
  std::memset(output.data(), 0, output_units * sizeof(bitset_t));
  size_t output_bit_index = 0;
  \<close>
  followed by the loops. The \<^verbatim>\<open>memset\<close> clears the first \<open>output_units\<close> words of the
  destination; a destination with fewer words is written past its end.
\<close>

definition repeat_cpu_bitset ::
  "'a::len word list \<Rightarrow> nat \<Rightarrow> nat \<Rightarrow> 'a word list \<Rightarrow> fault + 'a word list" where
  "repeat_cpu_bitset input input_bits repeat output =
     (let output_bits = input_bits * repeat;
          output_units = (output_bits + LENGTH('a) - 1) div LENGTH('a)
      in if output_units \<le> length output
         then (case repeat_rounds input input_bits repeat 0
                      (replicate output_units 0 @ drop output_units output) 0 of
                 Inl e \<Rightarrow> Inl e
               | Inr (output', output_bit_index) \<Rightarrow> Inr output')
         else Inl OutOfBounds)"

text \<open>
  Modelled from the spec: \<^verbatim>\<open>bitset_view::eval_n_elements\<close>, a static member of the
  view in \<^verbatim>\<open>raft/core/bitset.cuh\<close>, which the test only calls. The specification gives
  it as the pure function \<open>ceil(bit_count / bits_per_word)\<close>; the width is that of the
  result's word type.
\<close>

definition eval_n_elements :: "'a::len itself \<Rightarrow> nat \<Rightarrow> nat" where
  "eval_n_elements w bit_count = nat \<lceil>real bit_count / real LENGTH('a)\<rceil>"

section \<open>Sparsity\<close>

text \<open>
  The counting loop of \<^verbatim>\<open>sparsity_cpu_bitset\<close>:
  \<^verbatim>\<open>
  size_t one_count = 0;
  for (size_t i = 0; i < total_bits; ++i) {
    size_t unit_index = i / (sizeof(bitset_t) * 8);
    size_t bit_offset = i % (sizeof(bitset_t) * 8);
    bool bit          = (data[unit_index] >> bit_offset) & 1;
    if (bit == 1) { ++one_count; }
  }
  \<close>
\<close>

function one_count_from :: "'a::len word list \<Rightarrow> nat \<Rightarrow> nat \<Rightarrow> nat \<Rightarrow> fault + nat" where
  "one_count_from data total_bits i one_count =
     (if i < total_bits
      then (if i div LENGTH('a) < length data
            then one_count_from data total_bits (i + 1)
                   (if drop_bit (i mod LENGTH('a)) (data ! (i div LENGTH('a))) AND 1 \<noteq> 0
                    then one_count + 1 else one_count)
            else Inl OutOfBounds)
      else Inr one_count)"
  by pat_completeness auto
termination
  by (relation "measure (\<lambda>(data, total_bits, i, one_count). total_bits - i)") auto

declare one_count_from.simps [simp del]

definition one_count_cpu_bitset :: "'a::len word list \<Rightarrow> nat \<Rightarrow> fault + nat" where
  "one_count_cpu_bitset data total_bits = one_count_from data total_bits 0 0"

text \<open>
  \<^verbatim>\<open>return static_cast<double>((total_bits - one_count) / (1.0 * total_bits));\<close>
  The quotient is taken exactly, as a rational number: the rounding of the \<^verbatim>\<open>double\<close>
  division is not modelled.
\<close>

definition sparsity_cpu_bitset :: "'a::len word list \<Rightarrow> nat \<Rightarrow> fault + rat" where
  "sparsity_cpu_bitset data total_bits =
     (case one_count_cpu_bitset data total_bits of
        Inl e \<Rightarrow> Inl e
      | Inr one_count \<Rightarrow>
          if total_bits = 0 then Inl NotANumber
          else Inr (of_nat (total_bits - one_count) / (1 * of_nat total_bits)))"

section \<open>Reinterpretation at another word width\<close>

text \<open>
  The remapping of \<^verbatim>\<open>test_cpu_bitset_nbits\<close> from a logical index to the word index and
  bit offset at the new width \<open>nbits\<close>:
  \<^verbatim>\<open>
  const index_t original_bit_index  = sample_index / original_nbits_;
  const index_t original_bit_offset = sample_index % original_nbits_;
  index_t new_bit_index             = original_bit_index * original_nbits_ / nbits;
  index_t new_bit_offset            = 0;
  if (original_nbits_ > nbits) {
    new_bit_index += original_bit_offset / nbits;
    new_bit_offset = original_bit_offset % nbits;
  } else {
    index_t ratio = nbits / original_nbits_;
    new_bit_offset += (original_bit_index % ratio) * original_nbits_;
    new_bit_offset += original_bit_offset % nbits;
  }
  \<close>
\<close>

definition new_bit_position :: "nat \<Rightarrow> nat \<Rightarrow> nat \<Rightarrow> nat \<times> nat" where
  "new_bit_position nbits original_nbits sample_index =
     (let original_bit_index = sample_index div original_nbits;
          original_bit_offset = sample_index mod original_nbits;
          new_bit_index = original_bit_index * original_nbits div nbits
      in if original_nbits > nbits
         then (new_bit_index + original_bit_offset div nbits, original_bit_offset mod nbits)
         else (let ratio = nbits div original_nbits
               in (new_bit_index,
                   (original_bit_index mod ratio) * original_nbits + original_bit_offset mod nbits)))"

text \<open>
  The bitset comes as a bare pointer \<^verbatim>\<open>const bitset_t*\<close>: a function from word index to
  word, with no length to check an index against. The first loop runs when the width is
  unchanged,
  \<^verbatim>\<open>
  result[i] = uint8_t((bitset[queries[i] / nbits] & (bitset_t{1} << (queries[i] % nbits))) != 0);
  \<close>
  and the second loop always runs after it and writes every \<open>result[i]\<close> again:
  \<^verbatim>\<open>
  const bitset_t bit_element = bitset[new_bit_index];
  const bool is_bit_set      = (bit_element & (bitset_t{1} << new_bit_offset)) != 0;
  result[i] = uint8_t(is_bit_set);
  \<close>
\<close>

fun nbits_same_from :: "(nat \<Rightarrow> 'b::len word) \<Rightarrow> nat list \<Rightarrow> nat \<Rightarrow> u8 list \<Rightarrow> fault + u8 list" where
  "nbits_same_from bitset [] i result = Inr result"
| "nbits_same_from bitset (q # queries) i result =
     (if i < length result
      then nbits_same_from bitset queries (Suc i)
             (result[i := of_bool (bitset (q div LENGTH('b)) AND push_bit (q mod LENGTH('b)) 1 \<noteq> 0)])
      else Inl OutOfBounds)"

fun nbits_remap_from ::
  "(nat \<Rightarrow> 'b::len word) \<Rightarrow> nat list \<Rightarrow> nat \<Rightarrow> u8 list \<Rightarrow> nat \<Rightarrow> fault + u8 list" where
  "nbits_remap_from bitset [] i result original_nbits = Inr result"
| "nbits_remap_from bitset (sample_index # queries) i result original_nbits =
     (if original_nbits = 0 then Inl DivisionByZero
      else if i < length result
      then (case new_bit_position LENGTH('b) original_nbits sample_index of
              (new_bit_index, new_bit_offset) \<Rightarrow>
                nbits_remap_from bitset queries (Suc i)
                  (result[i := of_bool (bitset new_bit_index AND push_bit new_bit_offset 1 \<noteq> 0)])
                  original_nbits)
      else Inl OutOfBounds)"

definition test_cpu_bitset_nbits ::
  "(nat \<Rightarrow> 'b::len word) \<Rightarrow> nat list \<Rightarrow> u8 list \<Rightarrow> nat \<Rightarrow> fault + u8 list" where
  "test_cpu_bitset_nbits bitset queries result original_nbits =
     (case (if original_nbits = LENGTH('b) then nbits_same_from bitset queries 0 result
            else Inr result) of
        Inl e \<Rightarrow> Inl e
      | Inr result' \<Rightarrow> nbits_remap_from bitset queries 0 result' original_nbits)"

text \<open>
  The view's memory. The test copies the words of the bitset byte for byte
  (\<^verbatim>\<open>std::memcpy\<close>, \<^verbatim>\<open>reinterpret_cast\<close>) and reads them at the new width. On the
  little-endian targets of the library, byte \<open>k\<close> of a word holds its bits \<open>8k .. 8k+7\<close>.
  What lies behind the last byte of the array (the slack of the allocation) is not
  determined by the bitset: it is the parameter \<open>beyond\<close>.
\<close>

definition word_bytes :: "'a::len word \<Rightarrow> u8 list" where
  "word_bytes w = map (\<lambda>k. ucast (drop_bit (8 * k) w)) [0..<LENGTH('a) div 8]"

definition bitset_bytes :: "'a::len word list \<Rightarrow> u8 list" where
  "bitset_bytes bitset = concat (map word_bytes bitset)"

definition byte_memory :: "u8 list \<Rightarrow> (nat \<Rightarrow> u8) \<Rightarrow> nat \<Rightarrow> u8" where
  "byte_memory bytes beyond a = (if a < length bytes then bytes ! a else beyond a)"

definition load_word :: "(nat \<Rightarrow> u8) \<Rightarrow> nat \<Rightarrow> 'b::len word" where
  "load_word mem j =
     word_rcat (rev (map (\<lambda>k. mem (j * (LENGTH('b) div 8) + k)) [0..<LENGTH('b) div 8]))"

definition reinterpret_bitset :: "'a::len word list \<Rightarrow> (nat \<Rightarrow> u8) \<Rightarrow> nat \<Rightarrow> 'b::len word" where
  "reinterpret_bitset bitset beyond = load_word (byte_memory (bitset_bytes bitset) beyond)"

section \<open>Logical bits\<close>

text \<open>
  Bit \<open>p\<close> of a word array: bit \<open>p mod W\<close> of word \<open>p div W\<close>, the bit that the source
  reads as \<^verbatim>\<open>(data[p / W] >> (p % W)) & 1\<close> and tests as
  \<^verbatim>\<open>(bitset[p / W] & (bitset_t{1} << (p % W))) != 0\<close>. The claims about bit positions are
  stated with it.
\<close>

definition logical_bit :: "'a::len word list \<Rightarrow> nat \<Rightarrow> bool" where
  "logical_bit bitset p = bit (bitset ! (p div LENGTH('a))) (p mod LENGTH('a))"

section \<open>Logical bits of a word array\<close>

lemma div_mod_eq_iff: "0 < (w::nat) \<Longrightarrow> (p div w = q div w \<and> p mod w = q mod w) = (p = q)"
  by (metis div_mult_mod_eq)

lemma unit_index_less: "0 < (w::nat) \<Longrightarrow> p < n * w \<Longrightarrow> p div w < n"
  by (simp add: less_mult_imp_div_less)

lemma test_bit_eq: "((w::'a::len word) AND 2 ^ k \<noteq> 0) = bit w k"
  by (simp add: and_exp_eq_0_iff_not_bit)

lemma shift_bit_eq: "(drop_bit k (w::'a::len word) AND 1 \<noteq> 0) = bit w k"
  by (simp add: and_one_eq bit_iff_odd_drop_bit mod_2_eq_odd)

lemma logical_bit_clear:
  fixes bitset :: "'a::len word list"
  assumes "idx div LENGTH('a) < length bitset" "p div LENGTH('a) < length bitset"
  shows "logical_bit (bitset[idx div LENGTH('a) :=
            (bitset ! (idx div LENGTH('a))) AND NOT (push_bit (idx mod LENGTH('a)) 1)]) p
         = (logical_bit bitset p \<and> p \<noteq> idx)"
proof (cases "p div LENGTH('a) = idx div LENGTH('a)")
  case True
  have "(p mod LENGTH('a) = idx mod LENGTH('a)) = (p = idx)"
    using True div_mod_eq_iff [of "LENGTH('a)" p idx] by simp
  then show ?thesis
    using assms True
    by (auto simp add: logical_bit_def bit_and_iff bit_not_iff bit_exp_iff)
next
  case False
  then have "p \<noteq> idx" by auto
  with False assms show ?thesis
    by (simp add: logical_bit_def)
qed

lemma add_cpu_bitset_bits:
  fixes bitset :: "'a::len word list"
  assumes "\<forall>m \<in> set mask_idx. m div LENGTH('a) < length bitset"
  shows "\<exists>bitset'. add_cpu_bitset bitset mask_idx = Inr bitset' \<and> length bitset' = length bitset \<and>
           (\<forall>p. p div LENGTH('a) < length bitset \<longrightarrow>
              logical_bit bitset' p = (logical_bit bitset p \<and> p \<notin> set mask_idx))"
  using assms
proof (induction mask_idx arbitrary: bitset)
  case Nil
  then show ?case by simp
next
  case (Cons idx mask_idx)
  let ?b = "bitset[idx div LENGTH('a) :=
              (bitset ! (idx div LENGTH('a))) AND NOT (push_bit (idx mod LENGTH('a)) 1)]"
  from Cons.prems have idx: "idx div LENGTH('a) < length bitset" by simp
  from Cons.prems have "\<forall>m \<in> set mask_idx. m div LENGTH('a) < length ?b" by simp
  from Cons.IH [OF this] obtain bitset' where
    r: "add_cpu_bitset ?b mask_idx = Inr bitset'" and l: "length bitset' = length ?b" and
    b: "\<forall>p. p div LENGTH('a) < length ?b \<longrightarrow>
              logical_bit bitset' p = (logical_bit ?b p \<and> p \<notin> set mask_idx)"
    by blast
  have "add_cpu_bitset bitset (idx # mask_idx) = Inr bitset'"
    using idx r by simp
  moreover have "length bitset' = length bitset" using l by simp
  moreover have "\<forall>p. p div LENGTH('a) < length bitset \<longrightarrow>
              logical_bit bitset' p = (logical_bit bitset p \<and> p \<notin> set (idx # mask_idx))"
    using b logical_bit_clear [OF idx] by auto
  ultimately show ?case by blast
qed

lemma logical_bit_ones:
  fixes bitset :: "'a::len word list"
  shows "p div LENGTH('a) < length bitset \<Longrightarrow> logical_bit (map (\<lambda>_. NOT 0 :: 'a word) bitset) p"
  by (simp add: logical_bit_def)

lemma test_cpu_bitset_from_eq:
  fixes bitset :: "'a::len word list"
  assumes "\<forall>q \<in> set queries. q div LENGTH('a) < length bitset" "i + length queries \<le> length result"
  shows "test_cpu_bitset_from bitset queries i result =
           Inr (take i result @ map (\<lambda>q. of_bool (logical_bit bitset q)) queries @ drop (i + length queries) result)"
  using assms
proof (induction queries arbitrary: i result)
  case Nil
  then show ?case by simp
next
  case (Cons q queries)
  let ?v = "of_bool ((bitset ! (q div LENGTH('a))) AND push_bit (q mod LENGTH('a)) 1 \<noteq> 0) :: u8"
  have v: "?v = of_bool (logical_bit bitset q)"
    by (simp add: test_bit_eq logical_bit_def)
  have i: "i < length result" using Cons.prems by simp
  have "test_cpu_bitset_from bitset queries (Suc i) (result[i := ?v]) =
      Inr (take (Suc i) (result[i := ?v]) @ map (\<lambda>q. of_bool (logical_bit bitset q)) queries @
           drop (Suc i + length queries) (result[i := ?v]))"
    using Cons.prems by (intro Cons.IH) auto
  also have "take (Suc i) (result[i := ?v]) = take i result @ [?v]"
    using i by (simp add: take_Suc_conv_app_nth)
  also have "drop (Suc i + length queries) (result[i := ?v]) = drop (i + length (q # queries)) result"
    by simp
  finally show ?case using Cons.prems i v by simp
qed

section \<open>The loops of repeat\<close>

lemma logical_bit_set:
  fixes out :: "'a::len word list"
  assumes "q div LENGTH('a) < length out" "p div LENGTH('a) < length out"
  shows "logical_bit (out[q div LENGTH('a) :=
            (out ! (q div LENGTH('a))) OR push_bit (q mod LENGTH('a)) (of_bool b)]) p
         = (logical_bit out p \<or> (p = q \<and> b))"
proof (cases "p div LENGTH('a) = q div LENGTH('a)")
  case True
  have "(p mod LENGTH('a) = q mod LENGTH('a)) = (p = q)"
    using True div_mod_eq_iff [of "LENGTH('a)" p q] by simp
  then show ?thesis
    using assms True
    by (cases b) (auto simp add: logical_bit_def bit_or_iff bit_exp_iff)
next
  case False
  then have "p \<noteq> q" by auto
  with False assms show ?thesis
    by (simp add: logical_bit_def)
qed

lemma repeat_bits_eq:
  fixes input out :: "'a::len word list"
  assumes "input_bits \<le> length input * LENGTH('a)"
    and "output_bit_index + (input_bits - i) \<le> length out * LENGTH('a)"
  shows "\<exists>output'. repeat_bits input input_bits i out output_bit_index =
              Inr (output', output_bit_index + (input_bits - i)) \<and>
            length output' = length out \<and>
            (\<forall>p. p div LENGTH('a) < length out \<longrightarrow>
               logical_bit output' p =
                 (logical_bit out p \<or>
                  (output_bit_index \<le> p \<and> p < output_bit_index + (input_bits - i) \<and>
                   logical_bit input (i + (p - output_bit_index)))))"
  using assms
proof (induction input input_bits i out output_bit_index rule: repeat_bits.induct)
  case (1 input input_bits i out obi)
  show ?case
  proof (cases "i < input_bits")
    case False
    then show ?thesis
      by (auto simp add: repeat_bits.simps [of input input_bits i])
  next
    case True
    let ?b = "drop_bit (i mod LENGTH('a)) (input ! (i div LENGTH('a))) AND 1 \<noteq> 0"
    let ?out = "out[obi div LENGTH('a) :=
                  (out ! (obi div LENGTH('a))) OR push_bit (obi mod LENGTH('a)) (of_bool ?b)]"
    have iu: "i div LENGTH('a) < length input"
      using True "1.prems"(1) by (simp add: unit_index_less)
    have ou: "obi div LENGTH('a) < length out"
      using True "1.prems"(2) by (simp add: unit_index_less)
    have b: "?b = logical_bit input i"
      by (simp add: shift_bit_eq logical_bit_def)
    have "\<exists>output'. repeat_bits input input_bits (i + 1) ?out (obi + 1) =
              Inr (output', obi + 1 + (input_bits - (i + 1))) \<and>
            length output' = length ?out \<and>
            (\<forall>p. p div LENGTH('a) < length ?out \<longrightarrow>
               logical_bit output' p =
                 (logical_bit ?out p \<or>
                  (obi + 1 \<le> p \<and> p < obi + 1 + (input_bits - (i + 1)) \<and>
                   logical_bit input (i + 1 + (p - (obi + 1))))))"
      using True iu ou "1.prems" by (intro "1.IH") auto
    then obtain output' where
      r: "repeat_bits input input_bits (i + 1) ?out (obi + 1) =
              Inr (output', obi + 1 + (input_bits - (i + 1)))" and
      l: "length output' = length out" and
      bits: "\<forall>p. p div LENGTH('a) < length out \<longrightarrow>
               logical_bit output' p =
                 (logical_bit ?out p \<or>
                  (obi + 1 \<le> p \<and> p < obi + 1 + (input_bits - (i + 1)) \<and>
                   logical_bit input (i + 1 + (p - (obi + 1)))))"
      by auto
    have "repeat_bits input input_bits i out obi = Inr (output', obi + (input_bits - i))"
      using True iu ou r by (simp add: repeat_bits.simps [of input input_bits i])
    moreover have "\<forall>p. p div LENGTH('a) < length out \<longrightarrow>
               logical_bit output' p =
                 (logical_bit out p \<or>
                  (obi \<le> p \<and> p < obi + (input_bits - i) \<and> logical_bit input (i + (p - obi))))"
    proof (intro allI impI)
      fix p assume p: "p div LENGTH('a) < length out"
      have "logical_bit ?out p = (logical_bit out p \<or> (p = obi \<and> logical_bit input i))"
        using logical_bit_set [OF ou p, of ?b] b by simp
      moreover have "logical_bit output' p =
                 (logical_bit ?out p \<or>
                  (obi + 1 \<le> p \<and> p < obi + 1 + (input_bits - (i + 1)) \<and>
                   logical_bit input (i + 1 + (p - (obi + 1)))))"
        using bits p by blast
      moreover have "obi + 1 \<le> p \<Longrightarrow> i + 1 + (p - (obi + 1)) = i + (p - obi)"
        by simp
      ultimately show "logical_bit output' p =
                 (logical_bit out p \<or>
                  (obi \<le> p \<and> p < obi + (input_bits - i) \<and> logical_bit input (i + (p - obi))))"
        using True by (cases "p = obi") auto
    qed
    ultimately show ?thesis using l by blast
  qed
qed

lemma repeat_rounds_eq:
  fixes input out :: "'a::len word list"
  assumes "input_bits \<le> length input * LENGTH('a)"
    and "output_bit_index + (repeat - r) * input_bits \<le> length out * LENGTH('a)"
  shows "\<exists>output'. repeat_rounds input input_bits repeat r out output_bit_index =
              Inr (output', output_bit_index + (repeat - r) * input_bits) \<and>
            length output' = length out \<and>
            (\<forall>p. p div LENGTH('a) < length out \<longrightarrow>
               logical_bit output' p =
                 (logical_bit out p \<or>
                  (output_bit_index \<le> p \<and> p < output_bit_index + (repeat - r) * input_bits \<and>
                   logical_bit input ((p - output_bit_index) mod input_bits))))"
  using assms
proof (induction input input_bits repeat r out output_bit_index rule: repeat_rounds.induct)
  case (1 input input_bits repeat r out obi)
  show ?case
  proof (cases "r < repeat")
    case False
    then show ?thesis
      by (auto simp add: repeat_rounds.simps [of input input_bits repeat r])
  next
    case True
    define k where "k = (repeat - (r + 1)) * input_bits"
    have split: "(repeat - r) * input_bits = input_bits + k"
    proof -
      have "repeat - r = Suc (repeat - (r + 1))" using True by simp
      then show ?thesis by (simp add: k_def)
    qed
    have room: "obi + (input_bits - 0) \<le> length out * LENGTH('a)"
      using "1.prems"(2) split by simp
    from repeat_bits_eq [OF "1.prems"(1) room] obtain out1 where
      r1: "repeat_bits input input_bits 0 out obi = Inr (out1, obi + input_bits)" and
      l1: "length out1 = length out" and
      b1: "\<forall>p. p div LENGTH('a) < length out \<longrightarrow>
             logical_bit out1 p =
               (logical_bit out p \<or> (obi \<le> p \<and> p < obi + input_bits \<and> logical_bit input (p - obi)))"
      by auto
    have "\<exists>output'. repeat_rounds input input_bits repeat (r + 1) out1 (obi + input_bits) =
              Inr (output', obi + input_bits + (repeat - (r + 1)) * input_bits) \<and>
            length output' = length out1 \<and>
            (\<forall>p. p div LENGTH('a) < length out1 \<longrightarrow>
               logical_bit output' p =
                 (logical_bit out1 p \<or>
                  (obi + input_bits \<le> p \<and> p < obi + input_bits + (repeat - (r + 1)) * input_bits \<and>
                   logical_bit input ((p - (obi + input_bits)) mod input_bits))))"
      using True r1 l1 "1.prems" split by (intro "1.IH" [OF True r1 refl]) (auto simp add: k_def)
    then obtain out2 where
      r2: "repeat_rounds input input_bits repeat (r + 1) out1 (obi + input_bits) =
              Inr (out2, obi + input_bits + k)" and
      l2: "length out2 = length out" and
      b2: "\<forall>p. p div LENGTH('a) < length out \<longrightarrow>
               logical_bit out2 p =
                 (logical_bit out1 p \<or>
                  (obi + input_bits \<le> p \<and> p < obi + input_bits + k \<and>
                   logical_bit input ((p - (obi + input_bits)) mod input_bits)))"
      using l1 by (auto simp add: k_def)
    have "repeat_rounds input input_bits repeat r out obi = Inr (out2, obi + (repeat - r) * input_bits)"
      using True r1 r2 split by (simp add: repeat_rounds.simps [of input input_bits repeat r] add.assoc)
    moreover have "\<forall>p. p div LENGTH('a) < length out \<longrightarrow>
               logical_bit out2 p =
                 (logical_bit out p \<or>
                  (obi \<le> p \<and> p < obi + (repeat - r) * input_bits \<and>
                   logical_bit input ((p - obi) mod input_bits)))"
    proof (intro allI impI)
      fix p assume p: "p div LENGTH('a) < length out"
      have e1: "logical_bit out1 p =
               (logical_bit out p \<or> (obi \<le> p \<and> p < obi + input_bits \<and> logical_bit input (p - obi)))"
        using b1 p by blast
      have e2: "logical_bit out2 p =
                 (logical_bit out1 p \<or>
                  (obi + input_bits \<le> p \<and> p < obi + input_bits + k \<and>
                   logical_bit input ((p - (obi + input_bits)) mod input_bits)))"
        using b2 p by blast
      have m1: "obi \<le> p \<Longrightarrow> p < obi + input_bits \<Longrightarrow> (p - obi) mod input_bits = p - obi"
        by simp
      have m2: "obi + input_bits \<le> p \<Longrightarrow> (p - (obi + input_bits)) mod input_bits = (p - obi) mod input_bits"
      proof -
        assume a: "obi + input_bits \<le> p"
        then have "p - obi = (p - (obi + input_bits)) + input_bits" by simp
        then show ?thesis by (metis mod_add_self2)
      qed
      show "logical_bit out2 p =
                 (logical_bit out p \<or>
                  (obi \<le> p \<and> p < obi + (repeat - r) * input_bits \<and>
                   logical_bit input ((p - obi) mod input_bits)))"
      proof (cases "p < obi + input_bits")
        case True
        then show ?thesis using e1 e2 m1 split by auto
      next
        case False
        then show ?thesis using e1 e2 m2 split by auto
      qed
    qed
    ultimately show ?thesis using l2 by blast
  qed
qed

section \<open>Counting set bits\<close>

lemma ceil_units_cover: "0 < (w::nat) \<Longrightarrow> n \<le> ((n + w - 1) div w) * w"
proof -
  assume w: "0 < w"
  have "n + w - 1 < ((n + w - 1) div w) * w + w"
    using w by (metis div_mult_mod_eq mod_less_divisor nat_add_left_cancel_less)
  then show ?thesis using w by linarith
qed

lemma repeat_cpu_bitset_bits:
  fixes input out :: "'a::len word list"
  assumes "input_bits \<le> length input * LENGTH('a)"
    and "(input_bits * repeat + LENGTH('a) - 1) div LENGTH('a) \<le> length out"
  shows "\<exists>output'. repeat_cpu_bitset input input_bits repeat out = Inr output' \<and>
            length output' = length out \<and>
            (\<forall>p. p div LENGTH('a) < (input_bits * repeat + LENGTH('a) - 1) div LENGTH('a) \<longrightarrow>
               logical_bit output' p =
                 (p < input_bits * repeat \<and> logical_bit input (p mod input_bits)))"
proof -
  define units where "units = (input_bits * repeat + LENGTH('a) - 1) div LENGTH('a)"
  define out0 where "out0 = replicate units (0 :: 'a word) @ drop units out"
  have u: "units \<le> length out" using assms(2) by (simp add: units_def)
  have l0: "length out0 = length out" using u by (simp add: out0_def)
  have z: "\<not> logical_bit out0 p" if "p div LENGTH('a) < units" for p
    using that by (simp add: logical_bit_def out0_def nth_append)
  have "input_bits * repeat \<le> units * LENGTH('a)"
    unfolding units_def by (rule ceil_units_cover) simp
  also have "\<dots> \<le> length out0 * LENGTH('a)" using u l0 by simp
  finally have room: "0 + (repeat - 0) * input_bits \<le> length out0 * LENGTH('a)"
    by (simp add: mult.commute)
  from repeat_rounds_eq [OF assms(1) room] obtain out1 where
    r: "repeat_rounds input input_bits repeat 0 out0 0 = Inr (out1, 0 + (repeat - 0) * input_bits)" and
    l: "length out1 = length out0" and
    b: "\<forall>p. p div LENGTH('a) < length out0 \<longrightarrow>
               logical_bit out1 p =
                 (logical_bit out0 p \<or>
                  (0 \<le> p \<and> p < 0 + (repeat - 0) * input_bits \<and>
                   logical_bit input ((p - 0) mod input_bits)))"
    by blast
  have "repeat_cpu_bitset input input_bits repeat out = Inr out1"
    using u r unfolding units_def out0_def repeat_cpu_bitset_def Let_def by simp
  moreover have "length out1 = length out" using l l0 by simp
  moreover have "\<forall>p. p div LENGTH('a) < units \<longrightarrow>
               logical_bit out1 p = (p < input_bits * repeat \<and> logical_bit input (p mod input_bits))"
  proof (intro allI impI)
    fix p assume p: "p div LENGTH('a) < units"
    then have "p div LENGTH('a) < length out0" using u l0 by simp
    with b have "logical_bit out1 p =
                 (logical_bit out0 p \<or>
                  (0 \<le> p \<and> p < 0 + (repeat - 0) * input_bits \<and>
                   logical_bit input ((p - 0) mod input_bits)))" by blast
    then show "logical_bit out1 p = (p < input_bits * repeat \<and> logical_bit input (p mod input_bits))"
      using z [OF p] by (simp add: mult.commute)
  qed
  ultimately show ?thesis unfolding units_def by blast
qed

lemma one_count_from_eq:
  fixes data :: "'a::len word list"
  assumes "total_bits \<le> length data * LENGTH('a)"
  shows "one_count_from data total_bits i one_count =
           Inr (one_count + card {p. i \<le> p \<and> p < total_bits \<and> logical_bit data p})"
  using assms
proof (induction data total_bits i one_count rule: one_count_from.induct)
  case (1 data total_bits i one_count)
  show ?case
  proof (cases "i < total_bits")
    case False
    then have "{p. i \<le> p \<and> p < total_bits \<and> logical_bit data p} = {}" by auto
    with False show ?thesis
      by (simp add: one_count_from.simps [of data total_bits i])
  next
    case True
    let ?S = "{p. i + 1 \<le> p \<and> p < total_bits \<and> logical_bit data p}"
    have fin: "finite ?S" by simp
    have u: "i div LENGTH('a) < length data"
      using True "1.prems" by (simp add: unit_index_less)
    have b: "(drop_bit (i mod LENGTH('a)) (data ! (i div LENGTH('a))) AND 1 \<noteq> 0) = logical_bit data i"
      by (simp add: shift_bit_eq logical_bit_def)
    have S: "{p. i \<le> p \<and> p < total_bits \<and> logical_bit data p} =
             (if logical_bit data i then insert i ?S else ?S)"
      using True by (auto simp add: Suc_le_eq le_less)
    have c: "card {p. i \<le> p \<and> p < total_bits \<and> logical_bit data p} =
             (if logical_bit data i then 1 else 0) + card ?S"
      unfolding S using fin by simp
    let ?c = "if drop_bit (i mod LENGTH('a)) (data ! (i div LENGTH('a))) AND 1 \<noteq> 0
              then one_count + 1 else one_count"
    have "one_count_from data total_bits i one_count = one_count_from data total_bits (i + 1) ?c"
      using True u by (simp add: one_count_from.simps [of data total_bits i])
    also have "\<dots> = Inr (?c + card ?S)"
      using True u "1.prems" by (intro "1.IH") auto
    finally show ?thesis using c b by simp
  qed
qed

lemma one_count_cpu_bitset_eq:
  fixes data :: "'a::len word list"
  assumes "total_bits \<le> length data * LENGTH('a)"
  shows "one_count_cpu_bitset data total_bits = Inr (card {p. p < total_bits \<and> logical_bit data p})"
  using one_count_from_eq [OF assms, of 0 0] by (simp add: one_count_cpu_bitset_def)

lemma card_complement_below:
  "card {p. p < (n::nat) \<and> \<not> P p} = n - card {p. p < n \<and> P p}"
proof -
  have "{p. p < n \<and> \<not> P p} = {..<n} - {p. p < n \<and> P p}" by auto
  moreover have "{p. p < n \<and> P p} \<subseteq> {..<n}" by auto
  ultimately show ?thesis by (simp add: card_Diff_subset)
qed

lemma card_periodic:
  "card {p. p < n * t \<and> P (p mod n)} = t * card {q. q < n \<and> P q}" for n t :: nat
proof (induction t)
  case 0
  then show ?case by simp
next
  case (Suc t)
  let ?A = "{p. p < n * t \<and> P (p mod n)}"
  let ?B = "(\<lambda>q. q + n * t) ` {q. q < n \<and> P q}"
  have "{p. p < n * Suc t \<and> P (p mod n)} = ?A \<union> ?B"
  proof (intro set_eqI iffI)
    fix p assume "p \<in> {p. p < n * Suc t \<and> P (p mod n)}"
    then have p: "p < n * t + n" "P (p mod n)" by simp_all
    show "p \<in> ?A \<union> ?B"
    proof (cases "p < n * t")
      case True with p show ?thesis by simp
    next
      case False
      then have e: "p = (p - n * t) + n * t" by simp
      then have "p mod n = (p - n * t) mod n" by (metis mod_mult_self2)
      moreover have "p - n * t < n" using p False by simp
      ultimately have "p - n * t \<in> {q. q < n \<and> P q}" using p by simp
      then show ?thesis using e by blast
    qed
  next
    fix p assume "p \<in> ?A \<union> ?B"
    then show "p \<in> {p. p < n * Suc t \<and> P (p mod n)}"
      by (auto simp add: trans_less_add1)
  qed
  moreover have "?A \<inter> ?B = {}" by auto
  moreover have "finite ?A" "finite ?B" by simp_all
  moreover have "card ?B = card {q. q < n \<and> P q}"
    by (rule card_image) (simp add: inj_on_def)
  ultimately show ?case using Suc by (simp add: card_Un_disjoint)
qed

section \<open>The remapping and the memory of a view\<close>

lemma new_bit_position_eq:
  assumes "0 < nbits" "0 < original_nbits" "original_nbits dvd nbits \<or> nbits dvd original_nbits"
  shows "new_bit_position nbits original_nbits sample_index =
           (sample_index div nbits, sample_index mod nbits)"
proof (cases "original_nbits > nbits")
  case True
  with assms have "nbits dvd original_nbits"
    by (auto dest: dvd_imp_le)
  then obtain k where k: "original_nbits = nbits * k" by (rule dvdE)
  have "sample_index div original_nbits * original_nbits div nbits +
          sample_index mod original_nbits div nbits = sample_index div nbits"
  proof -
    have "sample_index div nbits =
            (sample_index div original_nbits * k * nbits + sample_index mod original_nbits) div nbits"
      using k by (metis div_mult_mod_eq mult.assoc mult.commute)
    also have "\<dots> = sample_index div original_nbits * k + sample_index mod original_nbits div nbits"
      using assms(1) by (simp add: add.commute)
    also have "sample_index div original_nbits * k = sample_index div original_nbits * original_nbits div nbits"
      using assms(1) k by (simp add: mult.assoc [symmetric] mult.commute)
    finally show ?thesis by simp
  qed
  moreover have "sample_index mod original_nbits mod nbits = sample_index mod nbits"
    using \<open>nbits dvd original_nbits\<close> by (rule mod_mod_cancel)
  ultimately show ?thesis
    using True by (simp add: new_bit_position_def Let_def)
next
  case False
  with assms have "original_nbits dvd nbits"
    by (auto dest: dvd_imp_le)
  then obtain r where r: "nbits = original_nbits * r" by (rule dvdE)
  have ratio: "nbits div original_nbits = r" using r assms(2) by simp
  have "sample_index div original_nbits * original_nbits div nbits = sample_index div nbits"
  proof -
    have "sample_index div original_nbits * original_nbits div nbits =
            (sample_index div original_nbits * original_nbits) div original_nbits div r"
      unfolding r by (rule div_mult2_eq)
    also have "\<dots> = sample_index div original_nbits div r" using assms(2) by simp
    also have "\<dots> = sample_index div nbits" unfolding r by (rule div_mult2_eq [symmetric])
    finally show ?thesis .
  qed
  moreover have "sample_index div original_nbits mod r * original_nbits +
                   sample_index mod original_nbits mod nbits = sample_index mod nbits"
  proof -
    have "sample_index mod original_nbits < nbits"
      using False assms(2) by (meson mod_less_divisor not_less order_less_le_trans)
    then have "sample_index mod original_nbits mod nbits = sample_index mod original_nbits" by simp
    then show ?thesis unfolding r by (simp add: mod_mult2_eq mult.commute)
  qed
  ultimately show ?thesis
    using False ratio by (simp add: new_bit_position_def Let_def)
qed

lemma bit_load_word:
  assumes "8 dvd LENGTH('b::len)"
  shows "bit (load_word mem j :: 'b word) n =
           (n < LENGTH('b) \<and> bit (mem (j * (LENGTH('b) div 8) + n div 8)) (n mod 8))"
proof -
  have "n div 8 < LENGTH('b) div 8 \<longleftrightarrow> n < LENGTH('b)"
    using assms div_less_iff_less_mult [of 8 n "LENGTH('b) div 8"] by simp
  then show ?thesis
    using bit_horner_sum_uint_exp_iff [where 'a = 8]
    by (auto simp add: load_word_def word_rcat_def bit_word_of_int_iff)
qed

lemma length_word_bytes: "length (word_bytes (w :: 'a::len word)) = LENGTH('a) div 8"
  by (simp add: word_bytes_def)

lemma length_bitset_bytes: "length (bitset_bytes (bitset :: 'a::len word list)) = length bitset * (LENGTH('a) div 8)"
  by (induction bitset) (simp_all add: bitset_bytes_def length_word_bytes)

lemma nth_bitset_bytes:
  fixes bitset :: "'a::len word list"
  assumes "a < length bitset * (LENGTH('a) div 8)"
  shows "bitset_bytes bitset ! a =
           word_bytes (bitset ! (a div (LENGTH('a) div 8))) ! (a mod (LENGTH('a) div 8))"
  using assms
proof (induction bitset arbitrary: a)
  case Nil
  then show ?case by simp
next
  case (Cons w bitset)
  let ?B = "LENGTH('a) div 8"
  have B: "0 < ?B" using Cons.prems by (cases "?B = 0") auto
  have c: "bitset_bytes (w # bitset) = word_bytes w @ bitset_bytes bitset"
    by (simp add: bitset_bytes_def)
  show ?case
  proof (cases "a < ?B")
    case True
    then show ?thesis by (simp add: c nth_append length_word_bytes)
  next
    case False
    then have a: "a = (a - ?B) + ?B" by simp
    have "a - ?B < length bitset * ?B" using Cons.prems False by simp
    from Cons.IH [OF this] have
      "bitset_bytes bitset ! (a - ?B) = word_bytes (bitset ! ((a - ?B) div ?B)) ! ((a - ?B) mod ?B)" .
    moreover have "a div ?B = Suc ((a - ?B) div ?B)"
      using False B by (simp add: le_div_geq)
    moreover have "a mod ?B = (a - ?B) mod ?B"
      using False by (simp add: le_mod_geq)
    ultimately show ?thesis using False by (simp add: c nth_append length_word_bytes)
  qed
qed

lemma bit_byte_memory:
  fixes bitset :: "'a::len word list"
  assumes "8 dvd LENGTH('a)" "p div LENGTH('a) < length bitset"
  shows "bit (byte_memory (bitset_bytes bitset) beyond (p div 8)) (p mod 8) = logical_bit bitset p"
proof -
  let ?B = "LENGTH('a) div 8"
  have W: "LENGTH('a) = 8 * ?B" using assms(1) by simp
  have B: "0 < ?B" using W by (metis len_gt_0 nat_0_less_mult_iff)
  have d: "p div 8 div ?B = p div LENGTH('a)"
    by (subst (2) W) (rule div_mult2_eq [symmetric])
  have m: "8 * (p div 8 mod ?B) + p mod 8 = p mod LENGTH('a)"
    by (subst (2) W) (rule mod_mult2_eq [symmetric])
  have a: "p div 8 < length bitset * ?B"
  proof -
    have "p div 8 div ?B < length bitset" using assms(2) d by simp
    then show ?thesis using B by (simp only: div_less_iff_less_mult)
  qed
  have k: "p div 8 mod ?B < ?B" using B by simp
  have "byte_memory (bitset_bytes bitset) beyond (p div 8) =
          word_bytes (bitset ! (p div LENGTH('a))) ! (p div 8 mod ?B)"
    using a d by (simp add: byte_memory_def length_bitset_bytes nth_bitset_bytes)
  also have "\<dots> = ucast (drop_bit (8 * (p div 8 mod ?B)) (bitset ! (p div LENGTH('a))))"
    using k by (simp add: word_bytes_def)
  finally have e: "byte_memory (bitset_bytes bitset) beyond (p div 8) =
          ucast (drop_bit (8 * (p div 8 mod ?B)) (bitset ! (p div LENGTH('a))))" .
  have "p mod 8 < 8 * ?B" using B by (simp add: less_le_trans [of _ 8])
  then have "p mod 8 < LENGTH('a)" using W by simp
  then show ?thesis
    using m e by (simp add: bit_word_ucast_iff bit_drop_bit_eq logical_bit_def)
qed

lemma bit_reinterpret_bitset:
  fixes bitset :: "'a::len word list"
  assumes "8 dvd LENGTH('a)" "8 dvd LENGTH('b::len)" "p div LENGTH('a) < length bitset"
  shows "bit (reinterpret_bitset bitset beyond (p div LENGTH('b)) :: 'b word) (p mod LENGTH('b)) =
           logical_bit bitset p"
proof -
  let ?B = "LENGTH('b) div 8"
  have W: "LENGTH('b) = 8 * ?B" using assms(2) by simp
  have "p div LENGTH('b) * ?B + p mod LENGTH('b) div 8 = p div 8"
  proof -
    have "p div 8 = (p div LENGTH('b) * LENGTH('b) + p mod LENGTH('b)) div 8" by simp
    also have "\<dots> = (p div LENGTH('b) * ?B * 8 + p mod LENGTH('b)) div 8"
      using W by (metis mult.assoc mult.commute)
    also have "\<dots> = p div LENGTH('b) * ?B + p mod LENGTH('b) div 8"
      by (simp add: add.commute)
    finally show ?thesis by simp
  qed
  moreover have "p mod LENGTH('b) mod 8 = p mod 8"
    using assms(2) by (rule mod_mod_cancel)
  ultimately show ?thesis
    using bit_load_word [OF assms(2), of "byte_memory (bitset_bytes bitset) beyond" "p div LENGTH('b)" "p mod LENGTH('b)"]
      bit_byte_memory [OF assms(1,3), of beyond]
    by (simp add: reinterpret_bitset_def)
qed

section \<open>Testing through a reinterpreted view\<close>

lemma ceildiv_cover: "0 < w \<Longrightarrow> n \<le> ceildiv n w * w"
  unfolding ceildiv_def by (rule ceil_units_cover)

lemma in_range_unit:
  fixes bitset :: "'a::len word list"
  assumes "length bitset = ceildiv N LENGTH('a)" "p < N"
  shows "p div LENGTH('a) < length bitset"
proof -
  have "N \<le> length bitset * LENGTH('a)" using assms(1) ceildiv_cover [of "LENGTH('a)" N] by simp
  with assms(2) have "p < length bitset * LENGTH('a)" by simp
  then show ?thesis by (rule less_mult_imp_div_less)
qed

lemma test_cpu_bitset_eq:
  fixes bitset :: "'a::len word list"
  assumes "\<forall>q \<in> set queries. q div LENGTH('a) < length bitset" "length result = length queries"
  shows "test_cpu_bitset bitset queries result = Inr (map (\<lambda>q. of_bool (logical_bit bitset q)) queries)"
  using test_cpu_bitset_from_eq [OF assms(1), of 0 result] assms(2)
  by (simp add: test_cpu_bitset_def)

lemma nbits_same_from_eq:
  assumes "i + length queries \<le> length result"
  shows "\<exists>result'. nbits_same_from bitset queries i result = Inr result' \<and> length result' = length result"
  using assms
proof (induction queries arbitrary: i result)
  case Nil
  then show ?case by simp
next
  case (Cons q queries)
  let ?r = "result[i := of_bool (bitset (q div LENGTH('a)) AND push_bit (q mod LENGTH('a)) 1 \<noteq> 0)]"
  have "Suc i + length queries \<le> length ?r" using Cons.prems by simp
  from Cons.IH [OF this] Cons.prems show ?case by simp
qed

lemma nbits_remap_from_eq:
  fixes bitset :: "nat \<Rightarrow> 'b::len word"
  assumes "0 < original_nbits"
    and "original_nbits dvd LENGTH('b) \<or> LENGTH('b) dvd original_nbits"
    and "i + length queries \<le> length result"
  shows "nbits_remap_from bitset queries i result original_nbits =
           Inr (take i result @
                map (\<lambda>q. of_bool (bit (bitset (q div LENGTH('b))) (q mod LENGTH('b)))) queries @
                drop (i + length queries) result)"
  using assms(3)
proof (induction queries arbitrary: i result)
  case Nil
  then show ?case by simp
next
  case (Cons q queries)
  let ?v = "of_bool (bit (bitset (q div LENGTH('b))) (q mod LENGTH('b))) :: u8"
  have pos: "new_bit_position LENGTH('b) original_nbits q = (q div LENGTH('b), q mod LENGTH('b))"
    using assms(1,2) by (intro new_bit_position_eq) simp_all
  have i: "i < length result" using Cons.prems by simp
  have "nbits_remap_from bitset (q # queries) i result original_nbits =
          nbits_remap_from bitset queries (Suc i) (result[i := ?v]) original_nbits"
    using assms(1) i pos by (simp add: test_bit_eq)
  also have "\<dots> = Inr (take (Suc i) (result[i := ?v]) @
                map (\<lambda>q. of_bool (bit (bitset (q div LENGTH('b))) (q mod LENGTH('b)))) queries @
                drop (Suc i + length queries) (result[i := ?v]))"
    using Cons.prems by (intro Cons.IH) simp
  also have "take (Suc i) (result[i := ?v]) = take i result @ [?v]"
    using i by (simp add: take_Suc_conv_app_nth)
  also have "drop (Suc i + length queries) (result[i := ?v]) = drop (i + length (q # queries)) result"
    by simp
  finally show ?case by simp
qed

lemma test_cpu_bitset_nbits_eq:
  fixes bitset :: "nat \<Rightarrow> 'b::len word"
  assumes "0 < original_nbits"
    and "original_nbits dvd LENGTH('b) \<or> LENGTH('b) dvd original_nbits"
    and "length result = length queries"
  shows "test_cpu_bitset_nbits bitset queries result original_nbits =
           Inr (map (\<lambda>q. of_bool (bit (bitset (q div LENGTH('b))) (q mod LENGTH('b)))) queries)"
proof (cases "original_nbits = LENGTH('b)")
  case True
  from nbits_same_from_eq [of 0 queries result bitset] assms(3) obtain result' where
    s: "nbits_same_from bitset queries 0 result = Inr result'" and l: "length result' = length result"
    by auto
  have "0 + length queries \<le> length result'" using l assms(3) by simp
  from nbits_remap_from_eq [OF assms(1,2) this, of bitset] show ?thesis
    using True s l assms(3) by (simp add: test_cpu_bitset_nbits_def)
next
  case False
  have "0 + length queries \<le> length result" using assms(3) by simp
  from nbits_remap_from_eq [OF assms(1,2) this, of bitset] show ?thesis
    using False assms(3) by (simp add: test_cpu_bitset_nbits_def)
qed

text \<open>
  C1. Width-reinterpretation equivalence. For a bitset of \<open>N\<close> logical bits stored in
  \<open>ceil(N / W)\<close> words of native width \<open>W\<close> in \<open>{8, 16, 32, 64}\<close>, for a view of the same
  bytes at a width \<open>W'\<close> in \<open>{8, 32, 64}\<close> and for queries in \<open>[0, N)\<close>,
  \<open>test_cpu_bitset_nbits\<close> on the view with \<open>original_nbits = W\<close> writes the same results
  as \<open>test_cpu_bitset\<close> on the native words: for each query, whether its logical bit is
  set. This holds whatever the bytes behind the array are.
\<close>

theorem test_cpu_bitset_nbits_reinterpret:
  fixes bitset :: "'a::len word list" and beyond :: "nat \<Rightarrow> u8"
  assumes "LENGTH('a) \<in> {8, 16, 32, 64}" and "LENGTH('b::len) \<in> {8, 32, 64}"
    and "length bitset = ceildiv N LENGTH('a)"
    and "\<forall>q \<in> set queries. q < N"
    and "length result = length queries"
  shows "test_cpu_bitset_nbits (reinterpret_bitset bitset beyond :: nat \<Rightarrow> 'b word)
             queries result LENGTH('a) = Inr (map (\<lambda>q. of_bool (logical_bit bitset q)) queries) \<and>
         test_cpu_bitset bitset queries result = Inr (map (\<lambda>q. of_bool (logical_bit bitset q)) queries)"
proof -
  have a8: "8 dvd LENGTH('a)" and b8: "8 dvd LENGTH('b)"
    using assms(1,2) by auto
  have dv: "LENGTH('a) dvd LENGTH('b) \<or> LENGTH('b) dvd LENGTH('a)"
    using assms(1,2) by auto
  have u: "\<forall>q \<in> set queries. q div LENGTH('a) < length bitset"
    using assms(3,4) in_range_unit by blast
  have "test_cpu_bitset_nbits (reinterpret_bitset bitset beyond :: nat \<Rightarrow> 'b word)
          queries result LENGTH('a) =
        Inr (map (\<lambda>q. of_bool (bit (reinterpret_bitset bitset beyond (q div LENGTH('b)) :: 'b word)
                                  (q mod LENGTH('b)))) queries)"
    using dv assms(5) by (intro test_cpu_bitset_nbits_eq) simp_all
  also have "map (\<lambda>q. of_bool (bit (reinterpret_bitset bitset beyond (q div LENGTH('b)) :: 'b word)
                                  (q mod LENGTH('b))) :: u8) queries =
             map (\<lambda>q. of_bool (logical_bit bitset q)) queries"
    using u bit_reinterpret_bitset [OF a8 b8, of _ bitset beyond] by simp
  finally show ?thesis
    using test_cpu_bitset_eq [OF u assms(5)] by simp
qed

theorem test_cpu_bitset_nbits_reinterpret_witness:
  "test_cpu_bitset_nbits
     (reinterpret_bitset [0xA5, 3, 0x81, 7, 0xF0 :: 8 word] (\<lambda>_. 255) :: nat \<Rightarrow> 64 word)
     [0, 1, 9, 16, 23, 33, 38] [0, 0, 0, 0, 0, 0, 0] 8 = Inr [1, 0, 1, 1, 1, 0, 1] \<and>
   test_cpu_bitset [0xA5, 3, 0x81, 7, 0xF0 :: 8 word]
     [0, 1, 9, 16, 23, 33, 38] [0, 0, 0, 0, 0, 0, 0] = Inr [1, 0, 1, 1, 1, 0, 1]"
  using test_cpu_bitset_nbits_reinterpret [where 'a = 8 and 'b = 64 and N = 39
      and bitset = "[0xA5, 3, 0x81, 7, 0xF0]" and queries = "[0, 1, 9, 16, 23, 33, 38]"
      and result = "[0, 0, 0, 0, 0, 0, 0]" and beyond = "\<lambda>_. 255"]
  by (simp add: ceildiv_def logical_bit_def)

section \<open>Construction from a mask\<close>

lemma create_cpu_bitset_bits:
  fixes bitset :: "'a::len word list"
  assumes "\<forall>m \<in> set mask_idx. m div LENGTH('a) < length bitset"
  shows "\<exists>bitset'. create_cpu_bitset bitset mask_idx = Inr bitset' \<and> length bitset' = length bitset \<and>
           (\<forall>p. p div LENGTH('a) < length bitset \<longrightarrow> logical_bit bitset' p = (p \<notin> set mask_idx))"
proof -
  let ?ones = "map (\<lambda>_. NOT 0 :: 'a word) bitset"
  have "\<forall>m \<in> set mask_idx. m div LENGTH('a) < length ?ones" using assms by simp
  from add_cpu_bitset_bits [OF this] obtain bitset' where
    "add_cpu_bitset ?ones mask_idx = Inr bitset'" "length bitset' = length ?ones"
    "\<forall>p. p div LENGTH('a) < length ?ones \<longrightarrow>
        logical_bit bitset' p = (logical_bit ?ones p \<and> p \<notin> set mask_idx)"
    by blast
  then show ?thesis
    using logical_bit_ones [of _ bitset] by (auto simp add: create_cpu_bitset_def)
qed

lemma bitset_ref_bits:
  assumes "\<forall>m \<in> set mask_cpu. m < ceildiv bitset_len LENGTH('a::len) * LENGTH('a)"
  shows "\<exists>bitset :: 'a word list. bitset_ref bitset_len mask_cpu = Inr bitset \<and>
           length bitset = ceildiv bitset_len LENGTH('a) \<and>
           (\<forall>p. p < ceildiv bitset_len LENGTH('a) * LENGTH('a) \<longrightarrow> logical_bit bitset p = (p \<notin> set mask_cpu))"
proof -
  let ?z = "replicate (ceildiv bitset_len LENGTH('a)) (0 :: 'a word)"
  have "\<forall>m \<in> set mask_cpu. m div LENGTH('a) < length ?z"
    using assms by (simp add: less_mult_imp_div_less)
  from create_cpu_bitset_bits [OF this] show ?thesis
    by (auto simp add: bitset_ref_def less_mult_imp_div_less)
qed

lemma add_cpu_bitset_fault:
  fixes bitset :: "'a::len word list"
  assumes "\<exists>m \<in> set mask_idx. \<not> m div LENGTH('a) < length bitset"
  shows "add_cpu_bitset bitset mask_idx = Inl OutOfBounds"
  using assms by (induction mask_idx arbitrary: bitset) auto

text \<open>
  C3. Post-construction membership. When every mask index lies in \<open>[0, bitset_len)\<close>,
  the construction succeeds, and testing any queries in \<open>[0, bitset_len)\<close> on the result
  gives, for each query \<open>i\<close>, 1 if \<open>i\<close> does not occur in the mask and 0 if it does.
\<close>

theorem bitset_ref_test_membership:
  assumes "\<forall>m \<in> set mask_cpu. m < bitset_len"
    and "\<forall>q \<in> set queries. q < bitset_len"
    and "length result = length queries"
  shows "\<exists>bitset :: 'a::len word list. bitset_ref bitset_len mask_cpu = Inr bitset \<and>
           test_cpu_bitset bitset queries result = Inr (map (\<lambda>i. of_bool (i \<notin> set mask_cpu)) queries)"
proof -
  have c: "bitset_len \<le> ceildiv bitset_len LENGTH('a) * LENGTH('a)"
    by (rule ceildiv_cover) simp
  then have "\<forall>m \<in> set mask_cpu. m < ceildiv bitset_len LENGTH('a) * LENGTH('a)"
    using assms(1) by (meson less_le_trans)
  from bitset_ref_bits [OF this] obtain bitset :: "'a word list" where
    r: "bitset_ref bitset_len mask_cpu = Inr bitset" and
    l: "length bitset = ceildiv bitset_len LENGTH('a)" and
    b: "\<forall>p. p < ceildiv bitset_len LENGTH('a) * LENGTH('a) \<longrightarrow> logical_bit bitset p = (p \<notin> set mask_cpu)"
    by blast
  have u: "\<forall>q \<in> set queries. q div LENGTH('a) < length bitset"
    using assms(2) l in_range_unit by blast
  have "map (\<lambda>q. of_bool (logical_bit bitset q) :: u8) queries =
        map (\<lambda>i. of_bool (i \<notin> set mask_cpu)) queries"
    using assms(2) b c by (auto simp add: less_le_trans)
  with test_cpu_bitset_eq [OF u assms(3)] r show ?thesis by simp
qed

theorem bitset_ref_test_membership_witness:
  "\<exists>bitset :: 16 word list. bitset_ref 32 [0, 3, 7, 31] = Inr bitset \<and>
      test_cpu_bitset bitset [0, 3, 7, 31, 1, 2, 4] [0, 0, 0, 0, 0, 0, 0] = Inr [0, 0, 0, 0, 1, 1, 1]"
  using bitset_ref_test_membership [where 'a = 16 and bitset_len = 32 and mask_cpu = "[0, 3, 7, 31]"
      and queries = "[0, 3, 7, 31, 1, 2, 4]" and result = "[0, 0, 0, 0, 0, 0, 0]"]
  by simp

text \<open>
  C9, as the code has it. The construction validates nothing and knows no
  \<open>InvalidArgument\<close>: it succeeds exactly when every mask index addresses an allocated
  word, that is, lies below \<open>ceil(bitset_len / W) * W\<close>. So it succeeds whenever all
  indices lie in \<open>[0, bitset_len)\<close>, it also accepts an index in the padding of the last
  word, and an index behind the last word is an unchecked access outside the vector.
\<close>

theorem bitset_ref_no_validation:
  "(\<exists>bitset :: 'a::len word list. bitset_ref bitset_len mask_cpu = Inr bitset) =
     (\<forall>m \<in> set mask_cpu. m < ceildiv bitset_len LENGTH('a) * LENGTH('a)) \<and>
   ((\<forall>m \<in> set mask_cpu. m < bitset_len) \<longrightarrow>
      (\<exists>bitset :: 'a word list. bitset_ref bitset_len mask_cpu = Inr bitset)) \<and>
   ((\<exists>m \<in> set mask_cpu. \<not> m < ceildiv bitset_len LENGTH('a) * LENGTH('a)) \<longrightarrow>
      (bitset_ref bitset_len mask_cpu :: fault + 'a word list) = Inl OutOfBounds)"
proof -
  have c: "bitset_len \<le> ceildiv bitset_len LENGTH('a) * LENGTH('a)"
    by (rule ceildiv_cover) simp
  have ok: "\<exists>bitset :: 'a word list. bitset_ref bitset_len mask_cpu = Inr bitset"
    if "\<forall>m \<in> set mask_cpu. m < ceildiv bitset_len LENGTH('a) * LENGTH('a)"
    using bitset_ref_bits [OF that] by blast
  have bad: "(bitset_ref bitset_len mask_cpu :: fault + 'a word list) = Inl OutOfBounds"
    if "\<exists>m \<in> set mask_cpu. \<not> m < ceildiv bitset_len LENGTH('a) * LENGTH('a)"
  proof -
    have "\<exists>m \<in> set mask_cpu. \<not> m div LENGTH('a) <
            length (map (\<lambda>_. NOT 0 :: 'a word) (replicate (ceildiv bitset_len LENGTH('a)) (0 :: 'a word)))"
      using that by (simp add: div_less_iff_less_mult)
    from add_cpu_bitset_fault [OF this] show ?thesis
      by (simp add: bitset_ref_def create_cpu_bitset_def)
  qed
  show ?thesis
  proof (intro conjI impI)
    show "(\<exists>bitset :: 'a word list. bitset_ref bitset_len mask_cpu = Inr bitset) =
            (\<forall>m \<in> set mask_cpu. m < ceildiv bitset_len LENGTH('a) * LENGTH('a))"
      using ok bad by (metis Inl_Inr_False)
    show "\<exists>bitset :: 'a word list. bitset_ref bitset_len mask_cpu = Inr bitset"
      if "\<forall>m \<in> set mask_cpu. m < bitset_len"
      using that c ok by (meson less_le_trans)
    show "(bitset_ref bitset_len mask_cpu :: fault + 'a word list) = Inl OutOfBounds"
      if "\<exists>m \<in> set mask_cpu. \<not> m < ceildiv bitset_len LENGTH('a) * LENGTH('a)"
      using that by (rule bad)
  qed
qed

text \<open>
  C9 as stated fails: with \<open>bitset_len = 5\<close> on 8-bit words, the mask index 6 lies outside
  \<open>[0, 5)\<close>, yet the construction succeeds; it clears the padding bit 6 of the only word.
\<close>

theorem bitset_ref_invalid_index_counterexample:
  "(\<exists>m \<in> set [6 :: nat]. \<not> m < 5) \<and> bitset_ref 5 [6] = Inr [191 :: 8 word]"
  by (simp add: bitset_ref_def create_cpu_bitset_def ceildiv_def)

theorem bitset_ref_no_validation_witness:
  "(\<exists>bitset :: 8 word list. bitset_ref 5 [6, 2] = Inr bitset) \<and>
   (\<exists>bitset :: 8 word list. bitset_ref 5 [4, 2] = Inr bitset) \<and>
   (bitset_ref 5 [2, 8] :: fault + 8 word list) = Inl OutOfBounds"
  using bitset_ref_no_validation [where 'a = 8 and bitset_len = 5 and mask_cpu = "[6, 2]"]
    bitset_ref_no_validation [where 'a = 8 and bitset_len = 5 and mask_cpu = "[4, 2]"]
    bitset_ref_no_validation [where 'a = 8 and bitset_len = 5 and mask_cpu = "[2, 8]"]
  by (simp add: ceildiv_def)

section \<open>Population count after construction and after flip\<close>

lemma logical_bit_ext:
  fixes xs ys :: "'a::len word list"
  assumes "length xs = length ys"
    and "\<forall>p. p div LENGTH('a) < length xs \<longrightarrow> logical_bit xs p = logical_bit ys p"
  shows "xs = ys"
proof (rule nth_equalityI)
  show "length xs = length ys" by (rule assms(1))
next
  fix j assume j: "j < length xs"
  show "xs ! j = ys ! j"
  proof (rule bit_word_eqI)
    fix n assume n: "n < LENGTH('a)"
    have "(j * LENGTH('a) + n) div LENGTH('a) = j" "(j * LENGTH('a) + n) mod LENGTH('a) = n"
      using n by simp_all
    with assms(2) j show "bit (xs ! j) n = bit (ys ! j) n"
      unfolding logical_bit_def by metis
  qed
qed

lemma card_unmasked:
  assumes "\<forall>m \<in> set mask_idx. m < (n::nat)"
  shows "card {p. p < n \<and> p \<notin> set mask_idx} = n - card (set mask_idx)"
proof -
  have "{p. p < n \<and> p \<in> set mask_idx} = set mask_idx" using assms by auto
  with card_complement_below [of n "\<lambda>p. p \<in> set mask_idx"] show ?thesis by simp
qed

text \<open>
  C4. Post-construction population count. When every mask index lies in
  \<open>[0, bitset_len)\<close>, the number of set bits counted over \<open>[0, bitset_len)\<close> after the
  construction is \<open>bitset_len\<close> minus the number of distinct mask indices, and the mask
  with its duplicates removed constructs the same word array.
\<close>

theorem bitset_ref_count:
  assumes "\<forall>m \<in> set mask_cpu. m < bitset_len"
  shows "\<exists>bitset :: 'a::len word list. bitset_ref bitset_len mask_cpu = Inr bitset \<and>
           one_count_cpu_bitset bitset bitset_len = Inr (bitset_len - card (set mask_cpu)) \<and>
           bitset_ref bitset_len (remdups mask_cpu) = Inr bitset"
proof -
  let ?cap = "ceildiv bitset_len LENGTH('a) * LENGTH('a)"
  have c: "bitset_len \<le> ?cap"
    by (rule ceildiv_cover) simp
  then have v: "\<forall>m \<in> set mask_cpu. m < ?cap"
    using assms by (meson less_le_trans)
  from bitset_ref_bits [OF v] obtain bitset :: "'a word list" where
    r: "bitset_ref bitset_len mask_cpu = Inr bitset" and
    l: "length bitset = ceildiv bitset_len LENGTH('a)" and
    b: "\<forall>p. p < ?cap \<longrightarrow> logical_bit bitset p = (p \<notin> set mask_cpu)"
    by blast
  have "\<forall>m \<in> set (remdups mask_cpu). m < ?cap" using v by simp
  from bitset_ref_bits [OF this] obtain bitset' :: "'a word list" where
    r': "bitset_ref bitset_len (remdups mask_cpu) = Inr bitset'" and
    l': "length bitset' = ceildiv bitset_len LENGTH('a)" and
    b': "\<forall>p. p < ?cap \<longrightarrow> logical_bit bitset' p = (p \<notin> set (remdups mask_cpu))"
    by blast
  have "bitset' = bitset"
    using l l' b b' by (intro logical_bit_ext) (simp_all add: div_less_iff_less_mult)
  moreover have "{p. p < bitset_len \<and> logical_bit bitset p} = {p. p < bitset_len \<and> p \<notin> set mask_cpu}"
    using b c by (auto simp add: less_le_trans)
  then have "one_count_cpu_bitset bitset bitset_len = Inr (bitset_len - card (set mask_cpu))"
    using one_count_cpu_bitset_eq [of bitset_len bitset] c l card_unmasked [OF assms] by simp
  ultimately show ?thesis using r r' by simp
qed

theorem bitset_ref_count_witness:
  "\<exists>bitset :: 16 word list. bitset_ref 32 [0, 3, 7, 3, 31, 0] = Inr bitset \<and>
      one_count_cpu_bitset bitset 32 = Inr 28 \<and> bitset_ref 32 [7, 3, 31, 0] = Inr bitset"
proof -
  have "card (set [0, 3, 7, 3, 31, 0 :: nat]) = 4"
    by (simp add: card_insert_if)
  with bitset_ref_count [where 'a = 16 and bitset_len = 32 and mask_cpu = "[0, 3, 7, 3, 31, 0]"]
  show ?thesis by simp
qed

lemma logical_bit_flip:
  fixes bitset :: "'a::len word list"
  assumes "p div LENGTH('a) < length bitset"
  shows "logical_bit (flip_cpu_bitset bitset) p = (\<not> logical_bit bitset p)"
  using assms by (simp add: logical_bit_def flip_cpu_bitset_def bit_not_iff)

text \<open>
  C6. Flip complements the count over the logical range. For a bitset of \<open>N\<close> logical
  bits stored in \<open>ceil(N / W)\<close> words, the count over \<open>[0, N)\<close> after a flip is \<open>N\<close> minus
  the count before; the flipped padding bits of the last word are not counted.
\<close>

theorem flip_cpu_bitset_count:
  fixes bitset :: "'a::len word list"
  assumes "length bitset = ceildiv N LENGTH('a)"
  shows "\<exists>c. one_count_cpu_bitset bitset N = Inr c \<and> c \<le> N \<and>
           one_count_cpu_bitset (flip_cpu_bitset bitset) N = Inr (N - c)"
proof -
  have c: "N \<le> length bitset * LENGTH('a)"
    using assms ceildiv_cover [of "LENGTH('a)" N] by simp
  have "{p. p < N \<and> logical_bit (flip_cpu_bitset bitset) p} = {p. p < N \<and> \<not> logical_bit bitset p}"
    using c logical_bit_flip [of _ bitset] by (auto simp add: less_mult_imp_div_less less_le_trans)
  then have "one_count_cpu_bitset (flip_cpu_bitset bitset) N =
               Inr (N - card {p. p < N \<and> logical_bit bitset p})"
    using one_count_cpu_bitset_eq [of N "flip_cpu_bitset bitset"] c
    by (simp add: card_complement_below flip_cpu_bitset_def)
  moreover have "card {p. p < N \<and> logical_bit bitset p} \<le> card {..<N}"
    by (rule card_mono) auto
  ultimately show ?thesis
    using one_count_cpu_bitset_eq [OF c] by simp
qed

theorem flip_cpu_bitset_count_witness:
  "one_count_cpu_bitset [0xA5, 0xFF :: 8 word] 11 = Inr 7 \<and>
   one_count_cpu_bitset (flip_cpu_bitset [0xA5, 0xFF :: 8 word]) 11 = Inr 4"
proof -
  have "one_count_cpu_bitset [0xA5, 0xFF :: 8 word] 11 = Inr 7"
    by code_simp
  with flip_cpu_bitset_count [where 'a = 8 and N = 11 and bitset = "[0xA5, 0xFF]"]
  show ?thesis by (simp add: ceildiv_def)
qed

section \<open>Properties of repeat\<close>

text \<open>
  C2. Bit-granularity correctness of repeat. For an input holding \<open>input_bits\<close> bits and
  a destination of at least \<open>ceil(input_bits * repeat / W)\<close> words, \<open>repeat_cpu_bitset\<close>
  returns, and bit \<open>p\<close> of its output equals bit \<open>p mod input_bits\<close> of the input for every
  \<open>p\<close> in \<open>[0, input_bits * repeat)\<close>: the copies follow one another bit by bit, with no
  gap, whether or not \<open>input_bits\<close> is a multiple of the word width.
\<close>

theorem repeat_cpu_bitset_bit_granularity:
  fixes input out :: "'a::len word list"
  assumes "input_bits \<le> length input * LENGTH('a)"
    and "ceildiv (input_bits * repeat) LENGTH('a) \<le> length out"
  shows "\<exists>output'. repeat_cpu_bitset input input_bits repeat out = Inr output' \<and>
           length output' = length out \<and>
           (\<forall>p < input_bits * repeat. logical_bit output' p = logical_bit input (p mod input_bits))"
proof -
  have c: "input_bits * repeat \<le> ceildiv (input_bits * repeat) LENGTH('a) * LENGTH('a)"
    by (rule ceildiv_cover) simp
  from repeat_cpu_bitset_bits [OF assms(1), of repeat out] assms(2) obtain output' where
    r: "repeat_cpu_bitset input input_bits repeat out = Inr output'" "length output' = length out" and
    b: "\<forall>p. p div LENGTH('a) < ceildiv (input_bits * repeat) LENGTH('a) \<longrightarrow>
               logical_bit output' p =
                 (p < input_bits * repeat \<and> logical_bit input (p mod input_bits))"
    unfolding ceildiv_def by blast
  have "logical_bit output' p = logical_bit input (p mod input_bits)" if "p < input_bits * repeat" for p
  proof -
    have "p < ceildiv (input_bits * repeat) LENGTH('a) * LENGTH('a)" using that c by simp
    then have "p div LENGTH('a) < ceildiv (input_bits * repeat) LENGTH('a)"
      by (rule less_mult_imp_div_less)
    with b that show ?thesis by blast
  qed
  with r show ?thesis by blast
qed

theorem repeat_cpu_bitset_bit_granularity_witness:
  "repeat_cpu_bitset [0x15 :: 8 word] 5 3 [0xFF, 0xFF, 0xEE] = Inr [0xB5, 0x56, 0xEE] \<and>
   logical_bit [0xB5, 0x56, 0xEE :: 8 word] 12 = logical_bit [0x15 :: 8 word] 2"
proof -
  have e: "repeat_cpu_bitset [0x15 :: 8 word] 5 3 [0xFF, 0xFF, 0xEE] = Inr [0xB5, 0x56, 0xEE]"
    by code_simp
  from repeat_cpu_bitset_bit_granularity [where 'a = 8 and input = "[0x15]" and input_bits = 5
      and repeat = 3 and out = "[0xFF, 0xFF, 0xEE]"]
  have "\<forall>p < 15. logical_bit [0xB5, 0x56, 0xEE :: 8 word] p = logical_bit [0x15 :: 8 word] (p mod 5)"
    unfolding e by (simp add: ceildiv_def)
  then have "logical_bit [0xB5, 0x56, 0xEE :: 8 word] 12 = logical_bit [0x15 :: 8 word] (12 mod 5)"
    by simp
  with e show ?thesis by simp
qed

text \<open>
  C10. Repeat zeroes the padding of the destination. After \<open>repeat_cpu_bitset\<close>, every bit
  at a position from \<open>input_bits * repeat\<close> on within the first
  \<open>ceil(input_bits * repeat / W)\<close> words of the destination is 0.
\<close>

theorem repeat_cpu_bitset_padding_zero:
  fixes input out :: "'a::len word list"
  assumes "input_bits \<le> length input * LENGTH('a)"
    and "ceildiv (input_bits * repeat) LENGTH('a) \<le> length out"
  shows "\<exists>output'. repeat_cpu_bitset input input_bits repeat out = Inr output' \<and>
           (\<forall>p. input_bits * repeat \<le> p \<and> p < ceildiv (input_bits * repeat) LENGTH('a) * LENGTH('a) \<longrightarrow>
                \<not> logical_bit output' p)"
proof -
  from repeat_cpu_bitset_bits [OF assms(1), of repeat out] assms(2) obtain output' where
    r: "repeat_cpu_bitset input input_bits repeat out = Inr output'" and
    b: "\<forall>p. p div LENGTH('a) < ceildiv (input_bits * repeat) LENGTH('a) \<longrightarrow>
               logical_bit output' p =
                 (p < input_bits * repeat \<and> logical_bit input (p mod input_bits))"
    unfolding ceildiv_def by blast
  have "\<not> logical_bit output' p"
    if "input_bits * repeat \<le> p" "p < ceildiv (input_bits * repeat) LENGTH('a) * LENGTH('a)" for p
  proof -
    have "p div LENGTH('a) < ceildiv (input_bits * repeat) LENGTH('a)"
      using that(2) by (rule less_mult_imp_div_less)
    with b that(1) show ?thesis by simp
  qed
  with r show ?thesis by blast
qed

theorem repeat_cpu_bitset_padding_zero_witness:
  "repeat_cpu_bitset [0x15 :: 8 word] 5 3 [0xFF, 0xFF, 0xEE] = Inr [0xB5, 0x56, 0xEE] \<and>
   \<not> logical_bit [0xB5, 0x56, 0xEE :: 8 word] 15"
proof -
  have e: "repeat_cpu_bitset [0x15 :: 8 word] 5 3 [0xFF, 0xFF, 0xEE] = Inr [0xB5, 0x56, 0xEE]"
    by code_simp
  from repeat_cpu_bitset_padding_zero [where 'a = 8 and input = "[0x15]" and input_bits = 5
      and repeat = 3 and out = "[0xFF, 0xFF, 0xEE]"]
  have "\<forall>p. 15 \<le> p \<and> p < 16 \<longrightarrow> \<not> logical_bit [0xB5, 0x56, 0xEE :: 8 word] p"
    unfolding e by (simp add: ceildiv_def)
  then have "\<not> logical_bit [0xB5, 0x56, 0xEE :: 8 word] 15" by simp
  with e show ?thesis by simp
qed

section \<open>Sizing of the destination, density\<close>

lemma eval_n_elements_ceildiv:
  "eval_n_elements TYPE('a::len) bit_count = ceildiv bit_count LENGTH('a)"
proof -
  let ?w = "LENGTH('a)"
  let ?q = "(bit_count + ?w - 1) div ?w"
  have w: "0 < ?w" by simp
  have up: "bit_count \<le> ?q * ?w" using w by (rule ceil_units_cover)
  have "?q * ?w \<le> bit_count + ?w - 1" by simp
  then have lo: "?q * ?w < bit_count + ?w" using w by linarith
  have "real bit_count / real ?w \<le> real ?q"
    using up w by (simp add: divide_le_eq flip: of_nat_mult)
  moreover have "real ?q - 1 < real bit_count / real ?w"
  proof -
    have "real (?q * ?w) < real (bit_count + ?w)" using lo by (simp only: of_nat_less_iff)
    then have "(real ?q - 1) * real ?w < real bit_count" by (simp add: algebra_simps)
    then show ?thesis using w by (simp add: less_divide_eq)
  qed
  ultimately have "\<lceil>real bit_count / real ?w\<rceil> = int ?q"
    by (intro ceiling_unique) simp_all
  then show ?thesis by (simp add: eval_n_elements_def ceildiv_def)
qed

text \<open>
  C8. Output sizing and in-bounds writes for repeat. \<open>eval_n_elements\<close>, the ceiling of
  \<open>bit_count / bits_per_word\<close>, is the integer quotient \<open>(bit_count + W - 1) div W\<close> with
  which the test sizes its vectors, and that many words hold \<open>bit_count\<close> bits. Every
  output bit index below \<open>input_bits * repeat\<close> falls into a word below
  \<open>eval_n_elements (input_bits * repeat)\<close>, and \<open>repeat_cpu_bitset\<close> into a destination of
  exactly that many words returns without an access outside the destination.
\<close>

theorem eval_n_elements_repeat_in_bounds:
  fixes input out :: "'a::len word list"
  assumes "input_bits \<le> length input * LENGTH('a)"
    and "length out = eval_n_elements TYPE('a) (input_bits * repeat)"
  shows "eval_n_elements TYPE('a) bit_count = ceildiv bit_count LENGTH('a) \<and>
         bit_count \<le> eval_n_elements TYPE('a) bit_count * LENGTH('a) \<and>
         (\<forall>p < input_bits * repeat. p div LENGTH('a) < eval_n_elements TYPE('a) (input_bits * repeat)) \<and>
         (\<exists>output'. repeat_cpu_bitset input input_bits repeat out = Inr output' \<and>
            length output' = eval_n_elements TYPE('a) (input_bits * repeat))"
proof -
  have e: "eval_n_elements TYPE('a) n = ceildiv n LENGTH('a)" for n
    by (rule eval_n_elements_ceildiv)
  have c: "n \<le> ceildiv n LENGTH('a) * LENGTH('a)" for n
    by (rule ceildiv_cover) simp
  have "p div LENGTH('a) < ceildiv (input_bits * repeat) LENGTH('a)" if "p < input_bits * repeat" for p
    using that c [of "input_bits * repeat"] by (intro less_mult_imp_div_less) simp
  moreover have "ceildiv (input_bits * repeat) LENGTH('a) \<le> length out"
    using assms(2) e by simp
  from repeat_cpu_bitset_bits [OF assms(1), of repeat out] this
  have "\<exists>output'. repeat_cpu_bitset input input_bits repeat out = Inr output' \<and> length output' = length out"
    unfolding ceildiv_def by blast
  ultimately show ?thesis using e c assms(2) by simp
qed

theorem eval_n_elements_repeat_in_bounds_witness:
  "eval_n_elements TYPE(8) 15 = 2 \<and>
   (\<exists>output'. repeat_cpu_bitset [0x15 :: 8 word] 5 3 [0xFF, 0xEE] = Inr output' \<and> length output' = 2)"
proof -
  have e: "eval_n_elements TYPE(8) 15 = 2"
    by (simp add: eval_n_elements_ceildiv ceildiv_def)
  from eval_n_elements_repeat_in_bounds [where 'a = 8 and input = "[0x15]" and input_bits = 5
      and repeat = 3 and out = "[0xFF, 0xEE]" and bit_count = 15]
  show ?thesis by (simp add: e)
qed

text \<open>
  C7. Repeat preserves density. For \<open>input_bits \<ge> 1\<close> and \<open>repeat \<ge> 1\<close>, the count of
  set bits of the output of \<open>repeat_cpu_bitset\<close> over \<open>[0, input_bits * repeat)\<close> is \<open>repeat\<close>
  times the count of the input over \<open>[0, input_bits)\<close>, and the sparsity of the output, as
  an exact rational, equals the sparsity of the input.
\<close>

theorem repeat_cpu_bitset_density:
  fixes input out :: "'a::len word list"
  assumes "1 \<le> input_bits" and "1 \<le> repeat"
    and "input_bits \<le> length input * LENGTH('a)"
    and "ceildiv (input_bits * repeat) LENGTH('a) \<le> length out"
  shows "\<exists>output' c s. repeat_cpu_bitset input input_bits repeat out = Inr output' \<and>
           one_count_cpu_bitset input input_bits = Inr c \<and>
           one_count_cpu_bitset output' (input_bits * repeat) = Inr (repeat * c) \<and>
           sparsity_cpu_bitset input input_bits = Inr s \<and>
           sparsity_cpu_bitset output' (input_bits * repeat) = Inr s"
proof -
  define c where "c = card {q. q < input_bits \<and> logical_bit input q}"
  have cin: "one_count_cpu_bitset input input_bits = Inr c"
    unfolding c_def by (rule one_count_cpu_bitset_eq [OF assms(3)])
  have cle: "c \<le> input_bits"
  proof -
    have "c \<le> card {..<input_bits}" unfolding c_def by (rule card_mono) auto
    then show ?thesis by simp
  qed
  have cov: "input_bits * repeat \<le> ceildiv (input_bits * repeat) LENGTH('a) * LENGTH('a)"
    by (rule ceildiv_cover) simp
  from repeat_cpu_bitset_bits [OF assms(3), of repeat out] assms(4) obtain output' where
    r: "repeat_cpu_bitset input input_bits repeat out = Inr output'" and
    l: "length output' = length out" and
    b: "\<forall>p. p div LENGTH('a) < ceildiv (input_bits * repeat) LENGTH('a) \<longrightarrow>
               logical_bit output' p =
                 (p < input_bits * repeat \<and> logical_bit input (p mod input_bits))"
    unfolding ceildiv_def by blast
  have bits: "logical_bit output' p = logical_bit input (p mod input_bits)"
    if "p < input_bits * repeat" for p
  proof -
    have "p < ceildiv (input_bits * repeat) LENGTH('a) * LENGTH('a)" using that cov by simp
    then have "p div LENGTH('a) < ceildiv (input_bits * repeat) LENGTH('a)"
      by (rule less_mult_imp_div_less)
    with b that show ?thesis by blast
  qed
  have room: "input_bits * repeat \<le> length output' * LENGTH('a)"
  proof -
    have "ceildiv (input_bits * repeat) LENGTH('a) * LENGTH('a) \<le> length output' * LENGTH('a)"
      using assms(4) l by simp
    with cov show ?thesis by (rule order_trans)
  qed
  have "{p. p < input_bits * repeat \<and> logical_bit output' p} =
        {p. p < input_bits * repeat \<and> logical_bit input (p mod input_bits)}"
    using bits by auto
  then have "card {p. p < input_bits * repeat \<and> logical_bit output' p} = repeat * c"
    unfolding c_def by (simp add: card_periodic)
  then have cout: "one_count_cpu_bitset output' (input_bits * repeat) = Inr (repeat * c)"
    using one_count_cpu_bitset_eq [OF room] by simp
  have pos: "input_bits \<noteq> 0" "input_bits * repeat \<noteq> 0" using assms(1,2) by simp_all
  have "input_bits * repeat - repeat * c = repeat * (input_bits - c)"
    by (simp add: diff_mult_distrib2 mult.commute)
  then have "(of_nat (input_bits * repeat - repeat * c) :: rat) / (1 * of_nat (input_bits * repeat)) =
             of_nat (input_bits - c) / (1 * of_nat input_bits)"
    using assms(2) by simp
  then have "sparsity_cpu_bitset output' (input_bits * repeat) = sparsity_cpu_bitset input input_bits"
    using cin cout pos by (simp add: sparsity_cpu_bitset_def)
  moreover have "sparsity_cpu_bitset input input_bits = Inr (of_nat (input_bits - c) / (1 * of_nat input_bits))"
    using cin pos by (simp add: sparsity_cpu_bitset_def)
  ultimately show ?thesis using r cin cout by simp
qed

theorem repeat_cpu_bitset_density_witness:
  "repeat_cpu_bitset [0x15 :: 8 word] 5 3 [0xFF, 0xFF, 0xEE] = Inr [0xB5, 0x56, 0xEE] \<and>
   one_count_cpu_bitset [0x15 :: 8 word] 5 = Inr 3 \<and>
   one_count_cpu_bitset [0xB5, 0x56, 0xEE :: 8 word] 15 = Inr 9 \<and>
   sparsity_cpu_bitset [0xB5, 0x56, 0xEE :: 8 word] 15 = sparsity_cpu_bitset [0x15 :: 8 word] 5"
proof -
  have e: "repeat_cpu_bitset [0x15 :: 8 word] 5 3 [0xFF, 0xFF, 0xEE] = Inr [0xB5, 0x56, 0xEE]"
    by code_simp
  have c: "one_count_cpu_bitset [0x15 :: 8 word] 5 = Inr 3"
    by code_simp
  from repeat_cpu_bitset_density [where 'a = 8 and input = "[0x15]" and input_bits = 5
      and repeat = 3 and out = "[0xFF, 0xFF, 0xEE]"]
  show ?thesis unfolding e c by (auto simp add: ceildiv_def)
qed

section \<open>Flip is an involution\<close>

text \<open>
  C5. Applying \<open>flip_cpu_bitset\<close> twice gives back the word array it started from, word
  for word; the bit pattern over the logical range is therefore restored as well.
\<close>

theorem flip_cpu_bitset_involution:
  "flip_cpu_bitset (flip_cpu_bitset bitset) = bitset"
  by (simp add: flip_cpu_bitset_def comp_def)

end
